theory Spec2Isabelle
  imports Complex_Main "HOL-Library.Word" "HOL-Library.Log_Nat"
begin

section \<open>The boot-phase detector of smart-splash.py\<close>

text \<open>
  The model follows \<^verbatim>\<open>SmartSplash.monitor_vnc\<close> (scripts/smart-splash.py, lines
  129 to 205). The three local variables of the method are the fields of the record
  \<open>detector\<close>. Python integers are unbounded; the counters only grow from 0, so they
  are natural numbers.
\<close>

record detector =
  check_count :: nat
  yellow_seen :: bool
  post_yellow_frames :: nat

text \<open>
  What one pass through the \<^verbatim>\<open>try\<close> block of the loop meets:
  \<^item> \<open>MonitorError\<close>: \<^verbatim>\<open>subprocess.run\<close> raised (a timeout of the socat call, socat
    missing), so control went to the \<^verbatim>\<open>except\<close> clause of line 197;
  \<^item> \<open>NoScreenshot\<close>: \<^verbatim>\<open>os.path.exists(screenshot_path)\<close> was false;
  \<^item> \<open>Percentages y g b\<close>: the file was there and \<^verbatim>\<open>analyze_screenshot\<close> returned
    \<open>(y, g, b)\<close>.
  The percentages are Python floats (or the integers 0 of the fall-through return);
  every finite float is a rational number and the comparisons with 20, 10 and 50 are
  exact, so they are rationals here.
\<close>

datatype frame = MonitorError | NoScreenshot | Percentages rat rat rat

text \<open>
  The four places where \<^verbatim>\<open>monitor_vnc\<close> calls \<^verbatim>\<open>self.schedule_close()\<close>: line 173
  (yellow gone), line 181 (grey screen), line 188 (no yellow after more than 40 checks)
  and line 205 (the loop ended). The first three are the specification's DismissNow,
  the last one its DismissOnTimeout.
\<close>

datatype close_reason = YellowPassed | GreyScreen | NoYellowTimeout | MonitorTimeout

datatype decision = DismissNow | DismissOnTimeout

fun decision_of :: "close_reason \<Rightarrow> decision" where
  "decision_of YellowPassed = DismissNow"
| "decision_of GreyScreen = DismissNow"
| "decision_of NoYellowTimeout = DismissNow"
| "decision_of MonitorTimeout = DismissOnTimeout"

text \<open>
  One iteration either executes a \<^verbatim>\<open>return\<close> (after scheduling the close) or falls
  through to \<^verbatim>\<open>check_count += 1\<close>.
\<close>

datatype step = Return close_reason detector | Continue detector

text \<open>Lines 176 to 200: the grey check, the safety check, and the increment.\<close>

definition after_yellow :: "detector \<Rightarrow> rat \<Rightarrow> step" where
  "after_yellow s grey_pct =
     (if grey_pct > 50 then Return GreyScreen s
      else if check_count s > 40 \<and> \<not> yellow_seen s then Return NoYellowTimeout s
      else Continue (s\<lparr>check_count := check_count s + 1\<rparr>))"

text \<open>Lines 141 to 200: the body of the \<^verbatim>\<open>while\<close> loop.\<close>

fun loop_body :: "detector \<Rightarrow> frame \<Rightarrow> step" where
  "loop_body s MonitorError = Continue (s\<lparr>check_count := check_count s + 1\<rparr>)"
| "loop_body s NoScreenshot = Continue (s\<lparr>check_count := check_count s + 1\<rparr>)"
| "loop_body s (Percentages yellow_pct grey_pct black_pct) =
     (if yellow_pct > 20 then
        after_yellow (s\<lparr>yellow_seen := True, post_yellow_frames := 0\<rparr>) grey_pct
      else if yellow_seen s \<and> yellow_pct < 10 then
        (let s' = s\<lparr>post_yellow_frames := post_yellow_frames s + 1\<rparr> in
         if post_yellow_frames s' \<ge> 2 then Return YellowPassed s'
         else after_yellow s' grey_pct)
      else after_yellow s grey_pct)"

text \<open>
  What the detector does that the outside can see: a screendump request (with the value
  of \<^verbatim>\<open>check_count\<close> at that moment) and a call of \<^verbatim>\<open>schedule_close\<close>.
\<close>

datatype event = Screendump nat | ScheduleClose close_reason

text \<open>
  The \<^verbatim>\<open>while\<close> loop of line 140. Each element of the input list is what one
  evaluation of the loop condition and one pass through the body meet: the value read
  from \<^verbatim>\<open>self.running\<close> (which only the foreground's \<^verbatim>\<open>close\<close> clears) and the
  frame. When the condition fails the loop ends and line 205 schedules the close. An
  input list that ends while the loop would go on gives the events up to there.
\<close>

fun monitor_loop :: "detector \<Rightarrow> (bool \<times> frame) list \<Rightarrow> event list" where
  "monitor_loop s [] =
     (if check_count s < 80 then [] else [ScheduleClose MonitorTimeout])"
| "monitor_loop s ((up, f) # rest) =
     (if up \<and> check_count s < 80 then
        Screendump (check_count s) #
        (case loop_body s f of
           Return r s' \<Rightarrow> [ScheduleClose r]
         | Continue s' \<Rightarrow> monitor_loop s' rest)
      else [ScheduleClose MonitorTimeout])"

definition initial :: detector where
  "initial = \<lparr>check_count = 0, yellow_seen = False, post_yellow_frames = 0\<rparr>"

definition monitor_vnc :: "(bool \<times> frame) list \<Rightarrow> event list" where
  "monitor_vnc input = monitor_loop initial input"

text \<open>A run during which the overlay stays up: \<^verbatim>\<open>self.running\<close> is read as true.\<close>

definition live :: "frame list \<Rightarrow> (bool \<times> frame) list" where
  "live fs = map (Pair True) fs"

definition sample :: "rat \<Rightarrow> frame" where
  "sample yellow_pct = Percentages yellow_pct 0 0"

text \<open>
  Two readings of the loop used to state properties: the detector's variables after an
  iteration, whichever way it ended, and the variables after a whole input list if
  the loop is then still polling (\<open>None\<close> once it has ended).
\<close>

fun state_of :: "step \<Rightarrow> detector" where
  "state_of (Return r s) = s"
| "state_of (Continue s) = s"

fun loop_state :: "detector \<Rightarrow> (bool \<times> frame) list \<Rightarrow> detector option" where
  "loop_state s [] = (if check_count s < 80 then Some s else None)"
| "loop_state s ((up, f) # rest) =
     (if up \<and> check_count s < 80 then
        (case loop_body s f of
           Return r s' \<Rightarrow> None
         | Continue s' \<Rightarrow> loop_state s' rest)
      else None)"

fun is_close :: "event \<Rightarrow> bool" where
  "is_close (ScheduleClose r) = True"
| "is_close (Screendump n) = False"

section \<open>The screenshot analysis of smart-splash.py\<close>

text \<open>
  The model follows \<^verbatim>\<open>SmartSplash.analyze_screenshot\<close> (lines 60 to 127). Every
  exception raised inside its \<^verbatim>\<open>try\<close> block is a value of \<open>error\<close>; the file is
  opened in binary mode, so its content is a list of bytes.
\<close>

datatype error = OSError | UnicodeDecodeError | IndexError | ValueError

type_synonym bytes = "8 word list"

subsection \<open>Python floats\<close>

text \<open>
  \<^verbatim>\<open>yellow_count / total_samples\<close> is Python's true division of two integers, which
  gives the binary64 number nearest to the exact quotient, and the product with 100 is
  rounded again. \<open>float_round\<close> is that rounding (to 53 significant bits, nearest, ties
  to the even significand), on the rationals; overflow and subnormal numbers, which a
  quotient of two pixel counts times 100 never meets, are not modelled.
\<close>

definition rne :: "rat \<Rightarrow> int" where
  "rne x =
     (let f = \<lfloor>x\<rfloor>; d = x - of_int f
      in if d < 1 / 2 then f else if 1 / 2 < d then f + 1 else if even f then f else f + 1)"

text \<open>The exponent \<open>e\<close> with \<open>2 ^ e \<le> x < 2 ^ (e + 1)\<close>, for a positive \<open>x\<close>.\<close>

definition binade :: "rat \<Rightarrow> int" where
  "binade x = (if 1 \<le> x then bitlen \<lfloor>x\<rfloor> - 1 else - bitlen (\<lceil>1 / x\<rceil> - 1))"

definition ulp :: "rat \<Rightarrow> rat" where
  "ulp x = 2 powi (binade \<bar>x\<bar> - 52)"

definition float_round :: "rat \<Rightarrow> rat" where
  "float_round x = (if x = 0 then 0 else sgn x * (of_int (rne (\<bar>x\<bar> / ulp x)) * ulp x))"

text \<open>
  Lines 119 to 121: \<^verbatim>\<open>(count / total_samples) * 100\<close>, for a count \<open>k\<close> and
  \<open>n\<close> samples.
\<close>

definition percent :: "nat \<Rightarrow> nat \<Rightarrow> rat" where
  "percent k n = float_round (float_round (of_nat k / of_nat n) * 100)"

subsection \<open>Classifying one pixel\<close>

datatype category = Yellow | Grey | Black | Unclassified

text \<open>
  Lines 97 to 104. \<open>r\<close>, \<open>g\<close> and \<open>b\<close> are Python integers (bytes read from a
  \<^verbatim>\<open>bytes\<close> object), so \<open>r - 20\<close> can be negative and nothing wraps.
\<close>

definition is_yellow :: "int \<Rightarrow> int \<Rightarrow> int \<Rightarrow> bool" where
  "is_yellow r g b =
     (let y0 = False;
          y1 = (if r > 200 \<and> g > 200 \<and> b < 220
                then (if b < r - 20 \<or> b < g - 20 then True else y0)
                else y0)
      in if r > 180 \<and> g > 160 \<and> b < 160 \<and> r > b + 30 then True else y1)"

text \<open>Lines 106 to 116: the \<^verbatim>\<open>if\<close>/\<^verbatim>\<open>elif\<close> chain.\<close>

definition classify_pixel :: "int \<Rightarrow> int \<Rightarrow> int \<Rightarrow> category" where
  "classify_pixel r g b =
     (if is_yellow r g b then Yellow
      else if \<bar>r - g\<bar> < 20 \<and> \<bar>g - b\<bar> < 20 \<and> 165 < r \<and> r < 215 then Grey
      else if r > 230 \<and> g > 230 \<and> b > 230 then Grey
      else if r < 60 \<and> g < 60 \<and> b < 60 then Black
      else Unclassified)"

record counts =
  yellow_count :: nat
  grey_count :: nat
  black_count :: nat
  total_samples :: nat

definition no_counts :: counts where
  "no_counts = \<lparr>yellow_count = 0, grey_count = 0, black_count = 0, total_samples = 0\<rparr>"

text \<open>Lines 92 to 116: what one sampled pixel does to the four counters.\<close>

definition count_pixel :: "counts \<Rightarrow> int \<Rightarrow> int \<Rightarrow> int \<Rightarrow> counts" where
  "count_pixel c r g b =
     (let c = c\<lparr>total_samples := total_samples c + 1\<rparr>
      in case classify_pixel r g b of
           Yellow \<Rightarrow> c\<lparr>yellow_count := yellow_count c + 1\<rparr>
         | Grey \<Rightarrow> c\<lparr>grey_count := grey_count c + 1\<rparr>
         | Black \<Rightarrow> c\<lparr>black_count := black_count c + 1\<rparr>
         | Unclassified \<Rightarrow> c)"

subsection \<open>Sampling the pixel data\<close>

text \<open>
  \<^verbatim>\<open>pixel_data[i]\<close> on a \<^verbatim>\<open>bytes\<close> object: an integer from 0 to 255, a negative
  index counts from the end, and an index out of range raises IndexError.
\<close>

definition getitem :: "bytes \<Rightarrow> int \<Rightarrow> error + int" where
  "getitem d i =
     (if 0 \<le> i \<and> i < int (length d) then Inr (uint (d ! nat i))
      else if - int (length d) \<le> i \<and> i < 0 then Inr (uint (d ! nat (int (length d) + i)))
      else Inl IndexError)"

text \<open>
  \<^verbatim>\<open>range(start, stop, step)\<close> for a positive step, the only kind line 90 can pass
  (the step is at least 9).
\<close>

function py_range :: "int \<Rightarrow> int \<Rightarrow> int \<Rightarrow> int list" where
  "py_range i stop step =
     (if 0 < step \<and> i < stop then i # py_range (i + step) stop step else [])"
  by pat_completeness auto
termination
  by (relation "measure (\<lambda>(i, stop, step). nat (stop - i))") auto

text \<open>Line 89.\<close>

definition step_of :: "bytes \<Rightarrow> int" where
  "step_of pixel_data = max 3 (int (length pixel_data) div 3000) * 3"

text \<open>Line 90: the indices the \<^verbatim>\<open>for\<close> loop visits.\<close>

definition sample_indices :: "bytes \<Rightarrow> int list" where
  "sample_indices pixel_data =
     py_range 0 (int (length pixel_data) - 2) (step_of pixel_data)"

text \<open>Lines 90 to 116: the loop, reading three bytes at every index it visits.\<close>

fun sample_loop :: "bytes \<Rightarrow> int list \<Rightarrow> counts \<Rightarrow> error + counts" where
  "sample_loop d [] c = Inr c"
| "sample_loop d (i # rest) c =
     (case getitem d i of
        Inl e \<Rightarrow> Inl e
      | Inr r \<Rightarrow>
          (case getitem d (i + 1) of
             Inl e \<Rightarrow> Inl e
           | Inr g \<Rightarrow>
               (case getitem d (i + 2) of
                  Inl e \<Rightarrow> Inl e
                | Inr b \<Rightarrow> sample_loop d rest (count_pixel c r g b))))"

text \<open>
  Lines 83 to 122, with \<^verbatim>\<open>width\<close> and \<^verbatim>\<open>height\<close> in scope as in the source. The
  result is \<open>Some\<close> of the three percentages when line 122 returns and \<open>None\<close> when
  \<^verbatim>\<open>total_samples\<close> is 0 and control leaves the \<^verbatim>\<open>with\<close> block.
\<close>

definition count_colors :: "int \<Rightarrow> int \<Rightarrow> bytes \<Rightarrow> error + (rat \<times> rat \<times> rat) option" where
  "count_colors width height pixel_data =
     (case sample_loop pixel_data (sample_indices pixel_data) no_counts of
        Inl e \<Rightarrow> Inl e
      | Inr c \<Rightarrow>
          if total_samples c > 0 then
            Inr (Some (percent (yellow_count c) (total_samples c),
                       percent (grey_count c) (total_samples c),
                       percent (black_count c) (total_samples c)))
          else Inr None)"

text \<open>
  For stating what the loop counts: the category of the pixel read at index \<open>i\<close>, and
  the number of sampled indices whose pixel falls into a category.
\<close>

definition sampled_category :: "bytes \<Rightarrow> int \<Rightarrow> category" where
  "sampled_category d i =
     classify_pixel (uint (d ! nat i)) (uint (d ! nat (i + 1))) (uint (d ! nat (i + 2)))"

definition tally :: "bytes \<Rightarrow> category \<Rightarrow> nat" where
  "tally d cat = length (filter (\<lambda>i. sampled_category d i = cat) (sample_indices d))"

subsection \<open>Reading the file\<close>

text \<open>
  \<^verbatim>\<open>f.readline()\<close> on a binary file: the bytes up to and including the next
  newline (byte 10), or all that is left when there is none; the empty line at the
  end of the file. The result is the line and the rest of the file.
\<close>

definition readline :: "bytes \<Rightarrow> bytes \<times> bytes" where
  "readline d =
     (case dropWhile (\<lambda>c. c \<noteq> 10) d of
        [] \<Rightarrow> (d, [])
      | nl # rest \<Rightarrow> (takeWhile (\<lambda>c. c \<noteq> 10) d @ [nl], rest))"

text \<open>\<^verbatim>\<open>line.startswith(b'#')\<close>; the byte of \<^verbatim>\<open>#\<close> is 35.\<close>

definition is_comment :: "bytes \<Rightarrow> bool" where
  "is_comment line = (case line of [] \<Rightarrow> False | c # cs \<Rightarrow> c = 35)"

text \<open>Lines 70 and 71: the loop that skips comment lines.\<close>

function skip_comments :: "bytes \<Rightarrow> bytes \<Rightarrow> bytes \<times> bytes" where
  "skip_comments line rest =
     (if is_comment line
      then skip_comments (fst (readline rest)) (snd (readline rest))
      else (line, rest))"
  by pat_completeness auto
termination
proof (relation "measure (\<lambda>(line, rest). length line + length rest)")
  show "wf (measure (\<lambda>(line, rest). length line + length rest))" by simp
next
  fix line rest :: bytes
  assume c: "is_comment line"
  have "length (fst (readline rest)) + length (snd (readline rest)) = length rest"
  proof (cases "dropWhile (\<lambda>c. c \<noteq> 10) rest")
    case Nil
    show ?thesis unfolding readline_def Nil by simp
  next
    case (Cons nl tl)
    have "length (takeWhile (\<lambda>c. c \<noteq> 10) rest) + length (dropWhile (\<lambda>c. c \<noteq> 10) rest)
            = length rest"
      by (metis length_append takeWhile_dropWhile_id)
    then have "length (takeWhile (\<lambda>c. c \<noteq> 10) rest) + Suc (length tl) = length rest"
      unfolding Cons by simp
    then show ?thesis unfolding readline_def Cons by simp
  qed
  moreover from c have "0 < length line" by (cases line) (simp_all add: is_comment_def)
  ultimately show "((fst (readline rest), snd (readline rest)), (line, rest))
      \<in> measure (\<lambda>(line, rest). length line + length rest)"
    by (simp add: case_prod_beta)
qed

subsection \<open>The dimension line\<close>

text \<open>
  Line 74 and 75: \<^verbatim>\<open>line.decode().strip().split()\<close>, then \<^verbatim>\<open>int\<close> of the first two
  fields. These are functions of the Python library; they are modelled as CPython 3.11
  has them, with its Unicode database (version 14.0) and its default limit of 4300
  digits for \<^verbatim>\<open>int\<close>. A Python string is the list of its code points, which are
  integers. The parsed numbers are not used by anything after line 75.
\<close>

type_synonym str = "int list"

text \<open>
  \<^verbatim>\<open>bytes.decode()\<close>: strict UTF-8. A lead byte below 128 stands for itself; lead
  bytes 194 to 223, 224 to 239 and 240 to 244 take one, two and three continuation
  bytes (128 to 191), where the first continuation byte is narrowed after 224, 237, 240
  and 244 so that over-long forms, surrogates and code points above 1114111 are
  refused, as every other byte is.
\<close>

definition continuation :: "int \<Rightarrow> bool" where
  "continuation b = (128 \<le> b \<and> b \<le> 191)"

fun utf8_decode :: "int list \<Rightarrow> str option" where
  "utf8_decode [] = Some []"
| "utf8_decode (a # bs) =
     (if a < 128 then map_option ((#) a) (utf8_decode bs)
      else if 194 \<le> a \<and> a \<le> 223 then
        (case bs of
           b # r \<Rightarrow>
             if continuation b
             then map_option ((#) ((a - 192) * 64 + (b - 128))) (utf8_decode r)
             else None
         | [] \<Rightarrow> None)
      else if 224 \<le> a \<and> a \<le> 239 then
        (case bs of
           b # c # r \<Rightarrow>
             if (if a = 224 then 160 \<le> b \<and> b \<le> 191
                 else if a = 237 then 128 \<le> b \<and> b \<le> 159
                 else continuation b)
                \<and> continuation c
             then map_option ((#) ((a - 224) * 4096 + (b - 128) * 64 + (c - 128)))
                    (utf8_decode r)
             else None
         | _ \<Rightarrow> None)
      else if 240 \<le> a \<and> a \<le> 244 then
        (case bs of
           b # c # d # r \<Rightarrow>
             if (if a = 240 then 144 \<le> b \<and> b \<le> 191
                 else if a = 244 then 128 \<le> b \<and> b \<le> 143
                 else continuation b)
                \<and> continuation c \<and> continuation d
             then map_option
                    ((#) ((a - 240) * 262144 + (b - 128) * 4096 + (c - 128) * 64 + (d - 128)))
                    (utf8_decode r)
             else None
         | _ \<Rightarrow> None)
      else None)"

definition decode :: "bytes \<Rightarrow> error + str" where
  "decode d =
     (case utf8_decode (map uint d) of
        None \<Rightarrow> Inl UnicodeDecodeError
      | Some text \<Rightarrow> Inr text)"

text \<open>
  \<^verbatim>\<open>str.isspace\<close> for one character, which \<^verbatim>\<open>strip\<close> and \<^verbatim>\<open>split\<close> use: tab to
  carriage return, the four separators 28 to 31, space, and the spaces of Unicode
  beyond ASCII.
\<close>

definition is_space :: "int \<Rightarrow> bool" where
  "is_space c =
     ((9 \<le> c \<and> c \<le> 13) \<or> (28 \<le> c \<and> c \<le> 32) \<or> c = 133 \<or> c = 160 \<or> c = 5760
      \<or> (8192 \<le> c \<and> c \<le> 8202) \<or> c = 8232 \<or> c = 8233 \<or> c = 8239 \<or> c = 8287
      \<or> c = 12288)"

definition strip :: "str \<Rightarrow> str" where
  "strip s = rev (dropWhile is_space (rev (dropWhile is_space s)))"

text \<open>\<^verbatim>\<open>str.split()\<close> without arguments: the maximal runs of non-space characters.\<close>

fun split_from :: "str \<Rightarrow> str \<Rightarrow> str list" where
  "split_from cur [] = (if cur = [] then [] else [cur])"
| "split_from cur (c # cs) =
     (if is_space c then (if cur = [] then split_from [] cs else cur # split_from [] cs)
      else split_from (cur @ [c]) cs)"

definition split :: "str \<Rightarrow> str list" where
  "split s = split_from [] s"

text \<open>
  The code points that have a decimal digit value, as runs from a first to a last code
  point; within a run the values go 0 to 9 and start again.
\<close>

definition digit_runs :: "(int \<times> int) list" where
  "digit_runs =
    [(48, 57), (1632, 1641), (1776, 1785), (1984, 1993), (2406, 2415), (2534, 2543),
     (2662, 2671), (2790, 2799), (2918, 2927), (3046, 3055), (3174, 3183), (3302, 3311),
     (3430, 3439), (3558, 3567), (3664, 3673), (3792, 3801), (3872, 3881), (4160, 4169),
     (4240, 4249), (6112, 6121), (6160, 6169), (6470, 6479), (6608, 6617), (6784, 6793),
     (6800, 6809), (6992, 7001), (7088, 7097), (7232, 7241), (7248, 7257), (42528, 42537),
     (43216, 43225), (43264, 43273), (43472, 43481), (43504, 43513), (43600, 43609),
     (44016, 44025), (65296, 65305), (66720, 66729), (68912, 68921), (69734, 69743),
     (69872, 69881), (69942, 69951), (70096, 70105), (70384, 70393), (70736, 70745),
     (70864, 70873), (71248, 71257), (71360, 71369), (71472, 71481), (71904, 71913),
     (72016, 72025), (72784, 72793), (73040, 73049), (73120, 73129), (92768, 92777),
     (92864, 92873), (93008, 93017), (120782, 120831), (123200, 123209), (123632, 123641),
     (125264, 125273), (130032, 130041)]"

definition decimal_of :: "int \<Rightarrow> int option" where
  "decimal_of c =
     (case find (\<lambda>(lo, hi). lo \<le> c \<and> c \<le> hi) digit_runs of
        None \<Rightarrow> None
      | Some (lo, hi) \<Rightarrow> Some ((c - lo) mod 10))"

text \<open>
  \<^verbatim>\<open>int(s)\<close> for a string. Spaces around the number are dropped; here a space is
  one of tab to carriage return and the blank, or a Unicode space beyond ASCII (the
  separators 28 to 31 are not). Then come an optional sign and decimal digits, of any
  script, in which single underscores may stand between two digits. Anything else
  raises ValueError, and so do more than 4300 digits (leading zeros count, the sign
  and the underscores do not).
\<close>

definition int_space :: "int \<Rightarrow> bool" where
  "int_space c = ((9 \<le> c \<and> c \<le> 13) \<or> c = 32 \<or> (127 \<le> c \<and> is_space c))"

fun parse_digits :: "int \<Rightarrow> int \<Rightarrow> bool \<Rightarrow> str \<Rightarrow> (int \<times> int) option" where
  "parse_digits acc n after_digit [] = (if after_digit then Some (acc, n) else None)"
| "parse_digits acc n after_digit (c # cs) =
     (case decimal_of c of
        Some v \<Rightarrow> parse_digits (10 * acc + v) (n + 1) True cs
      | None \<Rightarrow>
          if c = 95 \<and> after_digit then parse_digits acc n False cs else None)"

definition py_int :: "str \<Rightarrow> error + int" where
  "py_int s =
     (let t = rev (dropWhile int_space (rev (dropWhile int_space s)));
          negative = (case t of [] \<Rightarrow> False | c # cs \<Rightarrow> c = 45);
          digits = (case t of [] \<Rightarrow> []
                    | c # cs \<Rightarrow> if c = 45 \<or> c = 43 then cs else t)
      in case parse_digits 0 0 False digits of
           None \<Rightarrow> Inl ValueError
         | Some (v, n) \<Rightarrow>
             if 4300 < n then Inl ValueError else Inr (if negative then - v else v))"

text \<open>
  Lines 74 and 75 together: too few fields raise IndexError at \<^verbatim>\<open>dims[0]\<close> or
  \<^verbatim>\<open>dims[1]\<close>; \<^verbatim>\<open>int(dims[0])\<close> is evaluated before \<^verbatim>\<open>dims[1]\<close> is read.
\<close>

definition parse_dims :: "bytes \<Rightarrow> error + int \<times> int" where
  "parse_dims line =
     (case decode line of
        Inl e \<Rightarrow> Inl e
      | Inr text \<Rightarrow>
          (case split (strip text) of
             [] \<Rightarrow> Inl IndexError
           | d0 # ds \<Rightarrow>
               (case py_int d0 of
                  Inl e \<Rightarrow> Inl e
                | Inr width \<Rightarrow>
                    (case ds of
                       [] \<Rightarrow> Inl IndexError
                     | d1 # ds' \<Rightarrow>
                         (case py_int d1 of
                            Inl e \<Rightarrow> Inl e
                          | Inr height \<Rightarrow> Inr (width, height))))))"

subsection \<open>The whole analysis\<close>

text \<open>
  The bytes of the dimension line and the bytes after the max-value line, as lines 66
  to 81 find them: the first line is read and dropped, comment lines are skipped,
  the next line is the dimension line, one more line is read and dropped, and
  \<^verbatim>\<open>f.read()\<close> takes all the rest.
\<close>

definition dims_line :: "bytes \<Rightarrow> bytes" where
  "dims_line d =
     (let (header, d1) = readline d;
          (line, d2) = readline d1
      in fst (skip_comments line d2))"

definition pixels_of :: "bytes \<Rightarrow> bytes" where
  "pixels_of d =
     (let (header, d1) = readline d;
          (line, d2) = readline d1;
          (maxval, pixel_data) = readline (snd (skip_comments line d2))
      in pixel_data)"

text \<open>
  The \<^verbatim>\<open>try\<close> block of lines 62 to 122. The file is \<open>None\<close> when \<^verbatim>\<open>open\<close> fails
  (no such file, no permission) and \<open>Some\<close> of its bytes otherwise; a read error in the
  middle of a readable file is not modelled.
\<close>

definition analyze_try :: "bytes option \<Rightarrow> error + (rat \<times> rat \<times> rat) option" where
  "analyze_try file =
     (case file of
        None \<Rightarrow> Inl OSError
      | Some d \<Rightarrow>
          (case parse_dims (dims_line d) of
             Inl e \<Rightarrow> Inl e
           | Inr (width, height) \<Rightarrow> count_colors width height (pixels_of d)))"

text \<open>
  Lines 60 to 127: the \<^verbatim>\<open>except\<close> clause swallows every exception, and both it and
  the case of no samples end at \<^verbatim>\<open>return 0, 0, 0\<close>.
\<close>

definition analyze_screenshot :: "bytes option \<Rightarrow> rat \<times> rat \<times> rat" where
  "analyze_screenshot file =
     (case analyze_try file of
        Inr (Some p) \<Rightarrow> p
      | Inr None \<Rightarrow> (0, 0, 0)
      | Inl e \<Rightarrow> (0, 0, 0))"

subsection \<open>From a capture to a frame\<close>

text \<open>
  Lines 143 to 154, as the loop body sees them: the screendump request raised; or it
  returned and no file is at the path; or a file is there and is handed to
  \<^verbatim>\<open>analyze_screenshot\<close>.
\<close>

datatype capture = RunRaised | FileAbsent | FilePresent "bytes option"

fun frame_of :: "capture \<Rightarrow> frame" where
  "frame_of RunRaised = MonitorError"
| "frame_of FileAbsent = NoScreenshot"
| "frame_of (FilePresent file) =
     (case analyze_screenshot file of (y, g, b) \<Rightarrow> Percentages y g b)"

text \<open>An ASCII text as bytes, and a file made of lines that each end in a newline.\<close>

definition ascii :: "string \<Rightarrow> bytes" where
  "ascii s = map of_char s"

definition ppm :: "string list \<Rightarrow> bytes \<Rightarrow> bytes" where
  "ppm header_lines pixel_data = concat (map (\<lambda>l. ascii l @ [10]) header_lines) @ pixel_data"

section \<open>The overlay's teardown\<close>

text \<open>
  \<^verbatim>\<open>schedule_close\<close> and \<^verbatim>\<open>close\<close> (lines 207 to 220) act on the object's
  \<^verbatim>\<open>running\<close> flag and on the Tk root. Of the root the model keeps whether the
  window still exists and how many \<^verbatim>\<open>close\<close> callbacks \<^verbatim>\<open>root.after\<close> has queued;
  \<open>exit_status\<close> is set once \<^verbatim>\<open>sys.exit\<close> has been called.
\<close>

record overlay =
  running :: bool
  window :: bool
  close_queued :: nat
  exit_status :: "int option"

datatype tk_error = TclError

text \<open>
  \<^verbatim>\<open>self.root.after(100, self.close)\<close>: Tk queues the callback, and raises when the
  application has been destroyed.
\<close>

definition root_after :: "overlay \<Rightarrow> tk_error + overlay" where
  "root_after v = (if window v then Inr (v\<lparr>close_queued := close_queued v + 1\<rparr>) else Inl TclError)"

text \<open>Lines 207 to 210.\<close>

definition schedule_close :: "overlay \<Rightarrow> tk_error + overlay" where
  "schedule_close v = (if running v then root_after v else Inr v)"

text \<open>
  Lines 212 to 220: the flag is cleared, \<^verbatim>\<open>quit\<close> and \<^verbatim>\<open>destroy\<close> run inside a
  \<^verbatim>\<open>try\<close> whose \<^verbatim>\<open>except\<close> swallows what they raise on a window that is gone, and
  \<^verbatim>\<open>sys.exit(0)\<close> ends the process.
\<close>

definition close :: "overlay \<Rightarrow> overlay" where
  "close v = v\<lparr>running := False, window := False, exit_status := Some 0\<rparr>"

section \<open>Properties of the detector\<close>

lemma loop_body_reason: "loop_body s f = Return r s' \<Longrightarrow> decision_of r = DismissNow"
  by (cases f) (auto simp: after_yellow_def Let_def split: if_splits)

lemma loop_body_count: "loop_body s f = Continue s' \<Longrightarrow> check_count s' = check_count s + 1"
  by (cases f) (auto simp: after_yellow_def Let_def split: if_splits)

text \<open>While the loop is polling, the events of a longer input extend those of a shorter one.\<close>

lemma monitor_loop_append:
  "loop_state s xs = Some s' \<Longrightarrow>
   monitor_loop s (xs @ ys) = monitor_loop s xs @ monitor_loop s' ys"
proof (induction xs arbitrary: s)
  case Nil
  then show ?case by (simp split: if_splits)
next
  case (Cons x xs)
  obtain up f where x: "x = (up, f)" by (cases x)
  from Cons.prems x have go: "up \<and> check_count s < 80" by (simp split: if_splits)
  show ?case
  proof (cases "loop_body s f")
    case (Return r t)
    with Cons.prems x go show ?thesis by simp
  next
    case (Continue t)
    with Cons.prems x go have "loop_state t xs = Some s'" by simp
    from Cons.IH [OF this] Continue x go show ?thesis by simp
  qed
qed

lemma loop_state_polling: "loop_state s xs = Some s' \<Longrightarrow> check_count s' < 80"
  by (induction s xs rule: loop_state.induct) (auto split: if_splits step.splits)

lemma grey_returns:
  "50 < g \<Longrightarrow> \<exists>r s'. loop_body s (Percentages y g b) = Return r s' \<and> decision_of r = DismissNow"
  by (auto simp: after_yellow_def Let_def)

text \<open>
  A run that issues the 80th screendump and never schedules a close from inside the
  loop is the full sequence of 80 screendumps followed by the close of line 205.
\<close>

lemma timeout_shape:
  "check_count s \<le> 80 \<Longrightarrow> Screendump 79 \<in> set (monitor_loop s input) \<Longrightarrow>
   (\<forall>r. ScheduleClose r \<in> set (monitor_loop s input) \<longrightarrow> decision_of r \<noteq> DismissNow) \<Longrightarrow>
   monitor_loop s input = map Screendump [check_count s..<80] @ [ScheduleClose MonitorTimeout]"
proof (induction input arbitrary: s)
  case Nil
  then show ?case by (simp split: if_splits)
next
  case (Cons x xs)
  obtain up f where x: "x = (up, f)" by (cases x)
  from Cons.prems(2) x have go: "up \<and> check_count s < 80" by (auto split: if_splits)
  show ?case
  proof (cases "loop_body s f")
    case (Return r t)
    with Cons.prems(3) x go loop_body_reason [OF Return] show ?thesis by auto
  next
    case (Continue t)
    have ct: "check_count t = check_count s + 1" by (rule loop_body_count [OF Continue])
    have tr: "monitor_loop s (x # xs) = Screendump (check_count s) # monitor_loop t xs"
      using Continue x go by simp
    show ?thesis
    proof (cases "check_count s = 79")
      case True
      then have "monitor_loop t xs = [ScheduleClose MonitorTimeout]"
        using ct by (cases xs) auto
      with tr True show ?thesis by simp
    next
      case False
      with Cons.prems(2) tr have a: "Screendump 79 \<in> set (monitor_loop t xs)" by simp
      from Cons.prems(3) tr
      have b: "\<forall>r. ScheduleClose r \<in> set (monitor_loop t xs) \<longrightarrow> decision_of r \<noteq> DismissNow"
        by simp
      from go ct have c: "check_count t \<le> 80" by simp
      from Cons.IH [OF c a b] tr ct go show ?thesis
        by (simp add: upt_conv_Cons)
    qed
  qed
qed

text \<open>Whatever the input, a scheduled close ends the events and only screendumps precede it.\<close>

lemma close_is_last:
  "monitor_loop s input = pre @ ScheduleClose r # post \<Longrightarrow>
   post = [] \<and> (\<forall>e \<in> set pre. \<exists>n. e = Screendump n)"
proof (induction input arbitrary: s pre)
  case Nil
  then show ?case by (auto split: if_splits simp: Cons_eq_append_conv append_eq_Cons_conv)
next
  case (Cons x xs)
  obtain up f where x: "x = (up, f)" by (cases x)
  show ?case
  proof (cases "up \<and> check_count s < 80")
    case False
    with Cons.prems x show ?thesis by (auto simp: Cons_eq_append_conv append_eq_Cons_conv)
  next
    case True
    show ?thesis
    proof (cases "loop_body s f")
      case (Return r' t)
      with Cons.prems x True show ?thesis
        by (auto simp: Cons_eq_append_conv append_eq_Cons_conv)
    next
      case (Continue t)
      with Cons.prems x True
      have "Screendump (check_count s) # monitor_loop t xs = pre @ ScheduleClose r # post" by simp
      then obtain pre' where p: "pre = Screendump (check_count s) # pre'"
        and q: "monitor_loop t xs = pre' @ ScheduleClose r # post"
        by (cases pre) auto
      from Cons.IH [OF q] p show ?thesis by auto
    qed
  qed
qed

lemma close_at_most_once: "length (filter is_close (monitor_loop s input)) \<le> 1"
proof (induction input arbitrary: s)
  case Nil
  show ?case by simp
next
  case (Cons x xs)
  obtain up f where x: "x = (up, f)" by (cases x)
  show ?case using Cons.IH x by (cases "loop_body s f") auto
qed

text \<open>
  Claim C1. Fed three frames with 80 percent yellow and then frames with 5 percent
  yellow (grey and black always 0), the detector schedules the close while it
  processes the second low frame: after the first low frame the events are the four
  screendumps only, and with the second the close for "yellow passed" follows the fifth
  screendump, whatever comes later in the input. And from any state, a frame with more
  than 20 percent yellow leaves \<^verbatim>\<open>yellow_seen\<close> true and \<^verbatim>\<open>post_yellow_frames\<close> at
  0.
\<close>

theorem hysteresis_second_low_frame:
  "monitor_vnc (live (map sample [80, 80, 80, 5])) =
     [Screendump 0, Screendump 1, Screendump 2, Screendump 3]
   \<and> monitor_vnc (live (map sample [80, 80, 80, 5, 5]) @ rest) =
     [Screendump 0, Screendump 1, Screendump 2, Screendump 3, Screendump 4,
      ScheduleClose YellowPassed]
   \<and> (\<forall>s y g b. 20 < y \<longrightarrow>
         yellow_seen (state_of (loop_body s (Percentages y g b)))
         \<and> post_yellow_frames (state_of (loop_body s (Percentages y g b))) = 0)"
proof (intro conjI allI impI)
  show "monitor_vnc (live (map sample [80, 80, 80, 5])) =
     [Screendump 0, Screendump 1, Screendump 2, Screendump 3]"
    by (simp add: monitor_vnc_def live_def sample_def initial_def after_yellow_def)
  show "monitor_vnc (live (map sample [80, 80, 80, 5, 5]) @ rest) =
     [Screendump 0, Screendump 1, Screendump 2, Screendump 3, Screendump 4,
      ScheduleClose YellowPassed]"
    by (simp add: monitor_vnc_def live_def sample_def initial_def after_yellow_def)
next
  fix s :: detector and y g b :: rat
  assume "20 < y"
  then show "yellow_seen (state_of (loop_body s (Percentages y g b)))"
    by (simp add: after_yellow_def)
  from \<open>20 < y\<close> show "post_yellow_frames (state_of (loop_body s (Percentages y g b))) = 0"
    by (simp add: after_yellow_def)
qed

theorem hysteresis_second_low_frame_witness:
  "(20 :: rat) < 25
   \<and> yellow_seen (state_of (loop_body
        \<lparr>check_count = 7, yellow_seen = False, post_yellow_frames = 1\<rparr> (Percentages 25 0 0)))
   \<and> post_yellow_frames (state_of (loop_body
        \<lparr>check_count = 7, yellow_seen = False, post_yellow_frames = 1\<rparr> (Percentages 25 0 0))) = 0
   \<and> state_of (loop_body
        \<lparr>check_count = 7, yellow_seen = False, post_yellow_frames = 1\<rparr> (Percentages 25 0 0)) =
        \<lparr>check_count = 8, yellow_seen = True, post_yellow_frames = 0\<rparr>"
  using hysteresis_second_low_frame [of "[]"]
  by (simp add: after_yellow_def)

text \<open>
  Claim C2, as stated, against the code. The claim has the safety net fire once attempt
  40 is reached. Line 186 tests \<^verbatim>\<open>check_count > 40\<close>, and \<^verbatim>\<open>check_count\<close> is 40
  while the 41st frame is processed: after 41 all-zero frames (attempts 0 to 40) no
  close has been scheduled.
\<close>

theorem safety_net_silent_through_attempt_40:
  "monitor_vnc (live (replicate 41 (sample 0))) = map Screendump [0..<41]"
  by code_simp

text \<open>
  Claim C2, amended. Fed 80 all-zero frames, the detector schedules the close of the
  safety net while it processes the frame with \<^verbatim>\<open>check_count = 41\<close> (the 42nd), the
  first one with more than 40 attempts behind it, and not at the final timeout; from
  a state without \<^verbatim>\<open>yellow_seen\<close> an all-zero frame takes the safety net exactly when
  \<^verbatim>\<open>check_count\<close> is above 40. And a run that issues all 80 screendumps without
  scheduling a DismissNow close ends with the close of line 205, DismissOnTimeout.
\<close>

theorem safety_net_after_40_attempts:
  "monitor_vnc (live (replicate 80 (sample 0))) =
     map Screendump [0..<42] @ [ScheduleClose NoYellowTimeout]
   \<and> (\<forall>s. \<not> yellow_seen s \<longrightarrow>
         ((\<exists>s'. loop_body s (sample 0) = Return NoYellowTimeout s') \<longleftrightarrow> 40 < check_count s))
   \<and> (\<forall>input.
         Screendump 79 \<in> set (monitor_vnc input)
         \<and> (\<forall>r. ScheduleClose r \<in> set (monitor_vnc input) \<longrightarrow> decision_of r \<noteq> DismissNow)
         \<longrightarrow> monitor_vnc input = map Screendump [0..<80] @ [ScheduleClose MonitorTimeout])"
proof (intro conjI allI impI)
  show "monitor_vnc (live (replicate 80 (sample 0))) =
     map Screendump [0..<42] @ [ScheduleClose NoYellowTimeout]"
    by code_simp
next
  fix s :: detector
  assume "\<not> yellow_seen s"
  then show "(\<exists>s'. loop_body s (sample 0) = Return NoYellowTimeout s') \<longleftrightarrow> 40 < check_count s"
    by (auto simp: after_yellow_def sample_def)
next
  fix input
  assume a: "Screendump 79 \<in> set (monitor_vnc input)
         \<and> (\<forall>r. ScheduleClose r \<in> set (monitor_vnc input) \<longrightarrow> decision_of r \<noteq> DismissNow)"
  have "check_count initial \<le> 80" by (simp add: initial_def)
  from timeout_shape [OF this] a
  have "monitor_loop initial input =
          map Screendump [check_count initial..<80] @ [ScheduleClose MonitorTimeout]"
    by (simp add: monitor_vnc_def)
  then show "monitor_vnc input = map Screendump [0..<80] @ [ScheduleClose MonitorTimeout]"
    by (simp add: monitor_vnc_def initial_def)
qed

theorem safety_net_after_40_attempts_witness:
  "Screendump 79 \<in> set (monitor_vnc (live (replicate 80 MonitorError)))
   \<and> ScheduleClose YellowPassed \<notin> set (monitor_vnc (live (replicate 80 MonitorError)))
   \<and> ScheduleClose GreyScreen \<notin> set (monitor_vnc (live (replicate 80 MonitorError)))
   \<and> ScheduleClose NoYellowTimeout \<notin> set (monitor_vnc (live (replicate 80 MonitorError)))
   \<and> monitor_vnc (live (replicate 80 MonitorError)) =
       map Screendump [0..<80] @ [ScheduleClose MonitorTimeout]"
proof -
  have e: "monitor_vnc (live (replicate 80 MonitorError)) =
       map Screendump [0..<80] @ [ScheduleClose MonitorTimeout]"
    by code_simp
  have h: "Screendump 79 \<in> set (monitor_vnc (live (replicate 80 MonitorError)))
    \<and> (\<forall>r. ScheduleClose r \<in> set (monitor_vnc (live (replicate 80 MonitorError)))
          \<longrightarrow> decision_of r \<noteq> DismissNow)"
    unfolding e by auto
  from safety_net_after_40_attempts [THEN conjunct2, THEN conjunct2, rule_format, OF h]
  show ?thesis unfolding e by auto
qed

text \<open>
  Claim C4. From every state, a frame with more than 50 percent grey makes the loop
  body return with a DismissNow close (the grey close of line 181, or the yellow close
  of line 173 when that frame also completes the hysteresis). So after every history
  that leaves the loop polling, such a frame is answered by one screendump and the
  close, on that same attempt.
\<close>

theorem grey_overrides:
  assumes "50 < g"
  shows "(\<exists>r s'. loop_body s (Percentages y g b) = Return r s' \<and> decision_of r = DismissNow)
    \<and> (\<forall>hist t rest. loop_state initial hist = Some t \<longrightarrow>
          (\<exists>r. monitor_vnc (hist @ (True, Percentages y g b) # rest) =
                 monitor_vnc hist @ [Screendump (check_count t), ScheduleClose r]
               \<and> decision_of r = DismissNow))"
proof (intro conjI allI impI)
  show "\<exists>r s'. loop_body s (Percentages y g b) = Return r s' \<and> decision_of r = DismissNow"
    by (rule grey_returns [OF assms])
next
  fix hist t rest
  assume st: "loop_state initial hist = Some t"
  from grey_returns [OF assms, of t y b]
  obtain r t' where r: "loop_body t (Percentages y g b) = Return r t'"
    and d: "decision_of r = DismissNow" by blast
  from loop_state_polling [OF st] r
  have "monitor_loop t ((True, Percentages y g b) # rest) =
          [Screendump (check_count t), ScheduleClose r]" by simp
  with monitor_loop_append [OF st, of "(True, Percentages y g b) # rest"] d
  show "\<exists>r. monitor_vnc (hist @ (True, Percentages y g b) # rest) =
                 monitor_vnc hist @ [Screendump (check_count t), ScheduleClose r]
               \<and> decision_of r = DismissNow"
    by (auto simp: monitor_vnc_def)
qed

theorem grey_overrides_witness:
  "(50 :: rat) < 60
   \<and> loop_state initial (live [sample 80, sample 5]) =
       Some \<lparr>check_count = 2, yellow_seen = True, post_yellow_frames = 1\<rparr>
   \<and> monitor_vnc (live [sample 80, sample 5] @ [(True, Percentages 15 60 0)]) =
       [Screendump 0, Screendump 1, Screendump 2, ScheduleClose GreyScreen]
   \<and> loop_body initial (Percentages 0 60 0) = Return GreyScreen initial"
proof -
  have h: "(50 :: rat) < 60" by simp
  have st: "loop_state initial (live [sample 80, sample 5]) =
       Some \<lparr>check_count = 2, yellow_seen = True, post_yellow_frames = 1\<rparr>"
    by (simp add: live_def sample_def initial_def after_yellow_def)
  from grey_overrides [OF h, of initial 15 0, THEN conjunct2, rule_format, OF st, of "[]"] h st
  show ?thesis
    by (simp add: monitor_vnc_def live_def sample_def initial_def after_yellow_def)
qed

text \<open>
  Claim C5, against the code. The counter \<^verbatim>\<open>post_yellow_frames\<close> is reset only by a
  frame above 20 percent yellow. A frame between 10 and 20 percent, a missing
  screenshot or a failed screendump between two low frames leaves it alone, and the
  second low frame then closes the overlay although the two low frames were not
  consecutive (the comment of line 169 asks for 2 consecutive frames).
\<close>

theorem hysteresis_counts_separated_frames:
  "monitor_vnc (live (map sample [80, 5, 15, 5])) =
     [Screendump 0, Screendump 1, Screendump 2, Screendump 3, ScheduleClose YellowPassed]
   \<and> monitor_vnc (live [sample 80, sample 5, NoScreenshot, MonitorError, sample 5]) =
     [Screendump 0, Screendump 1, Screendump 2, Screendump 3, Screendump 4,
      ScheduleClose YellowPassed]"
  by (simp add: monitor_vnc_def live_def sample_def initial_def after_yellow_def)

text \<open>
  Claim C9. In the events of any run from any state there is at most one call of
  \<^verbatim>\<open>schedule_close\<close>; wherever one occurs nothing follows it, no screendump in
  particular, and only screendumps precede it. Once \<^verbatim>\<open>close\<close> has run, a further
  \<^verbatim>\<open>schedule_close\<close> raises nothing and changes nothing (the guard on \<^verbatim>\<open>running\<close>
  keeps it from queueing the callback again), and \<^verbatim>\<open>close\<close> itself leaves the state
  it has reached.
\<close>

theorem close_scheduled_once:
  "length (filter is_close (monitor_loop s input)) \<le> 1
   \<and> (\<forall>pre r post. monitor_loop s input = pre @ ScheduleClose r # post \<longrightarrow>
         post = [] \<and> (\<forall>e \<in> set pre. \<exists>n. e = Screendump n))
   \<and> schedule_close (close v) = Inr (close v)
   \<and> close (close v) = close v"
proof (intro conjI allI impI)
  show "length (filter is_close (monitor_loop s input)) \<le> 1" by (rule close_at_most_once)
next
  fix pre r post
  assume a: "monitor_loop s input = pre @ ScheduleClose r # post"
  from close_is_last [OF a] show "post = []" by simp
  from close_is_last [OF a] show "\<forall>e \<in> set pre. \<exists>n. e = Screendump n" by simp
next
  show "schedule_close (close v) = Inr (close v)" by (simp add: schedule_close_def close_def)
  show "close (close v) = close v" by (simp add: close_def)
qed

theorem close_scheduled_once_witness:
  "monitor_loop initial (live [sample 80, sample 5, sample 5, sample 90]) =
     [Screendump 0, Screendump 1, Screendump 2] @ ScheduleClose YellowPassed # []
   \<and> length (filter is_close
        (monitor_loop initial (live [sample 80, sample 5, sample 5, sample 90]))) = 1
   \<and> schedule_close (close \<lparr>running = True, window = True, close_queued = 1, exit_status = None\<rparr>)
      = Inr \<lparr>running = False, window = False, close_queued = 1, exit_status = Some 0\<rparr>"
proof -
  have e: "monitor_loop initial (live [sample 80, sample 5, sample 5, sample 90]) =
     [Screendump 0, Screendump 1, Screendump 2] @ ScheduleClose YellowPassed # []"
    by (simp add: live_def sample_def initial_def after_yellow_def)
  from close_scheduled_once [of initial "live [sample 80, sample 5, sample 5, sample 90]"
      "\<lparr>running = True, window = True, close_queued = 1, exit_status = None\<rparr>",
      THEN conjunct2, THEN conjunct1, rule_format, OF e] e
  show ?thesis by (simp add: schedule_close_def close_def)
qed

section \<open>Properties of the sampling loop\<close>

declare py_range.simps [simp del]

lemma py_range_elems:
  "i \<in> set (py_range a stop step) \<Longrightarrow> a \<le> i \<and> i < stop \<and> step dvd (i - a)"
proof (induction a stop step rule: py_range.induct)
  case (1 a stop step)
  show ?case
  proof (cases "0 < step \<and> a < stop")
    case False
    with "1.prems" show ?thesis by (simp add: py_range.simps [of a stop step])
  next
    case True
    with "1.prems" have "i = a \<or> i \<in> set (py_range (a + step) stop step)"
      by (simp add: py_range.simps [of a stop step])
    then show ?thesis
    proof
      assume "i = a"
      with True show ?thesis by simp
    next
      assume "i \<in> set (py_range (a + step) stop step)"
      from "1.IH" [OF True this] True
      have "a + step \<le> i" and "i < stop" and d: "step dvd (i - (a + step))" by simp_all
      from d have "step dvd (i - (a + step)) + step" by (rule dvd_add) simp
      moreover have "(i - (a + step)) + step = i - a" by simp
      ultimately have "step dvd (i - a)" by (simp only:)
      with \<open>a + step \<le> i\<close> \<open>i < stop\<close> True show ?thesis by simp
    qed
  qed
qed

lemma step_of_triple: "3 dvd step_of d" and step_of_pos: "0 < step_of d"
  by (simp_all add: step_of_def)

lemma sample_indices_in_range:
  "i \<in> set (sample_indices d) \<Longrightarrow> 0 \<le> i \<and> i + 2 < int (length d) \<and> 3 dvd i"
proof -
  assume "i \<in> set (sample_indices d)"
  from py_range_elems [OF this [unfolded sample_indices_def]]
  have "0 \<le> i" and "i < int (length d) - 2" and "step_of d dvd i" by simp_all
  moreover have "3 dvd step_of d" by (rule step_of_triple)
  ultimately show ?thesis by (auto dest: dvd_trans)
qed

lemma getitem_in_range:
  "0 \<le> i \<Longrightarrow> i < int (length d) \<Longrightarrow> getitem d i = Inr (uint (d ! nat i))"
  by (simp add: getitem_def)

text \<open>The loop without the range checks: what it computes when every read succeeds.\<close>

lemma sample_loop_safe:
  "(\<forall>i \<in> set idx. 0 \<le> i \<and> i + 2 < int (length d)) \<Longrightarrow>
   sample_loop d idx c =
     Inr (foldl (\<lambda>c i. count_pixel c (uint (d ! nat i)) (uint (d ! nat (i + 1)))
                         (uint (d ! nat (i + 2)))) c idx)"
proof (induction idx arbitrary: c)
  case Nil
  show ?case by simp
next
  case (Cons i idx)
  from Cons.prems have i: "0 \<le> i" "i + 2 < int (length d)" by simp_all
  then have "getitem d i = Inr (uint (d ! nat i))"
    "getitem d (i + 1) = Inr (uint (d ! nat (i + 1)))"
    "getitem d (i + 2) = Inr (uint (d ! nat (i + 2)))"
    by (simp_all add: getitem_in_range)
  with Cons.IH Cons.prems show ?case by simp
qed

lemma sample_loop_total:
  "\<exists>c. sample_loop d (sample_indices d) no_counts = Inr c"
  using sample_loop_safe [of "sample_indices d" d no_counts] sample_indices_in_range [of _ d]
  by auto

section \<open>Properties of the rounding\<close>

lemma rne_nonneg: "0 \<le> x \<Longrightarrow> 0 \<le> rne x"
  by (auto simp: rne_def Let_def)

lemma rne_le: "x \<le> of_int k \<Longrightarrow> rne x \<le> k"
proof -
  assume a: "x \<le> of_int k"
  then have f: "\<lfloor>x\<rfloor> \<le> k" by (simp add: floor_le_iff)
  show ?thesis
  proof (cases "x = of_int \<lfloor>x\<rfloor>")
    case True
    then have "x - of_int \<lfloor>x\<rfloor> = 0" by simp
    then have "rne x = \<lfloor>x\<rfloor>" by (simp add: rne_def Let_def)
    with f show ?thesis by simp
  next
    case False
    have "of_int \<lfloor>x\<rfloor> < x" using False of_int_floor_le [of x] by (metis less_le)
    with a have "(of_int \<lfloor>x\<rfloor> :: rat) < of_int k" by simp
    then have "\<lfloor>x\<rfloor> < k" by simp
    moreover have "rne x \<le> \<lfloor>x\<rfloor> + 1" by (simp add: rne_def Let_def)
    ultimately show ?thesis by simp
  qed
qed

lemma rne_upper: "of_int (rne x) \<le> x + 1 / 2"
proof -
  define d where "d = x - of_int \<lfloor>x\<rfloor>"
  have d0: "0 \<le> d" by (simp add: d_def)
  have x: "x = of_int \<lfloor>x\<rfloor> + d" by (simp add: d_def)
  have r: "rne x = (if d < 1 / 2 then \<lfloor>x\<rfloor> else if 1 / 2 < d then \<lfloor>x\<rfloor> + 1
                    else if even \<lfloor>x\<rfloor> then \<lfloor>x\<rfloor> else \<lfloor>x\<rfloor> + 1)"
    by (simp add: rne_def Let_def d_def)
  consider "d < 1 / 2" | "1 / 2 \<le> d" by linarith
  then show ?thesis
  proof cases
    case 1
    with r have "rne x = \<lfloor>x\<rfloor>" by simp
    with d0 x show ?thesis by linarith
  next
    case 2
    from r have "rne x \<le> \<lfloor>x\<rfloor> + 1" by simp
    then have "(of_int (rne x) :: rat) \<le> of_int (\<lfloor>x\<rfloor> + 1)" by (simp only: of_int_le_iff)
    then have "of_int (rne x) \<le> of_int \<lfloor>x\<rfloor> + (1 :: rat)" by simp
    with 2 x show ?thesis by linarith
  qed
qed

lemma binade_le: "0 < x \<Longrightarrow> 2 powi (binade x) \<le> x"
proof (cases "1 \<le> x")
  case True
  then have f: "0 < \<lfloor>x\<rfloor>" by simp
  from bitlen_bounds [OF f] have b: "2 ^ nat (bitlen \<lfloor>x\<rfloor> - 1) \<le> \<lfloor>x\<rfloor>" by simp
  from f have "1 \<le> bitlen \<lfloor>x\<rfloor>" by (simp add: bitlen_alt_def)
  then have "(2::rat) powi (bitlen \<lfloor>x\<rfloor> - 1) = 2 ^ nat (bitlen \<lfloor>x\<rfloor> - 1)"
    by (simp add: power_int_def)
  also have "\<dots> = of_int (2 ^ nat (bitlen \<lfloor>x\<rfloor> - 1))" by simp
  also from b have "\<dots> \<le> of_int \<lfloor>x\<rfloor>" by (simp only: of_int_le_iff)
  also have "\<dots> \<le> x" by simp
  finally show ?thesis using True by (simp add: binade_def)
next
  case False
  assume pos: "0 < x"
  from False pos have y: "1 < 1 / x" by simp
  define m where "m = \<lceil>1 / x\<rceil> - 1"
  from y have "1 < \<lceil>1 / x\<rceil>" by (simp add: less_ceiling_iff)
  then have m: "0 < m" by (simp add: m_def)
  from bitlen_bounds [OF m] have "m < 2 ^ nat (bitlen m)" by simp
  then have "\<lceil>1 / x\<rceil> \<le> 2 ^ nat (bitlen m)" by (simp add: m_def)
  then have "1 / x \<le> of_int (2 ^ nat (bitlen m))" by (simp only: ceiling_le_iff)
  then have "1 / x \<le> 2 ^ nat (bitlen m)" by simp
  with pos have "1 \<le> 2 ^ nat (bitlen m) * x" by (simp add: field_simps)
  then have "1 / 2 ^ nat (bitlen m) \<le> x" by (simp add: field_simps)
  moreover have "(2::rat) powi (- bitlen m) = 1 / 2 ^ nat (bitlen m)"
    using bitlen_nonneg [of m] by (simp add: power_int_def field_simps)
  ultimately show ?thesis using False by (simp add: binade_def m_def)
qed

lemma ulp_pos: "0 < ulp x"
  by (simp add: ulp_def)

lemma float_round_nonneg: "0 \<le> x \<Longrightarrow> 0 \<le> float_round x"
proof (cases "x = 0")
  case True
  then show ?thesis by (simp add: float_round_def)
next
  case False
  assume "0 \<le> x"
  with False have pos: "0 < x" by simp
  then have "0 \<le> \<bar>x\<bar> / ulp x" using ulp_pos [of x] by simp
  then have "0 \<le> rne (\<bar>x\<bar> / ulp x)" by (rule rne_nonneg)
  then have "0 \<le> of_int (rne (\<bar>x\<bar> / ulp x)) * ulp x" using ulp_pos [of x] by simp
  with pos show ?thesis by (simp add: float_round_def)
qed

lemma binade_small: "0 < x \<Longrightarrow> x < 2 ^ 53 \<Longrightarrow> binade x \<le> 52"
proof (rule ccontr)
  assume pos: "0 < x" and small: "x < 2 ^ 53" and "\<not> binade x \<le> 52"
  then have "53 \<le> binade x" by simp
  then have "(2::rat) powi 53 \<le> 2 powi (binade x)" by (intro power_int_increasing) simp_all
  also from pos have "\<dots> \<le> x" by (rule binade_le)
  finally show False using small by simp
qed

lemma float_round_le_int:
  assumes pos: "0 < x" and le: "x \<le> of_int c" and small: "x < 2 ^ 53"
  shows "float_round x \<le> of_int c"
proof -
  define k where "k = nat (52 - binade x)"
  from binade_small [OF pos small] have e: "binade x - 52 = - int k" by (simp add: k_def)
  from pos have u: "ulp x = 1 / 2 ^ k" by (simp add: ulp_def e power_int_def field_simps)
  from le have "x * 2 ^ k \<le> of_int c * 2 ^ k" by simp
  also have "\<dots> = of_int (c * 2 ^ k)" by simp
  finally have "rne (x * 2 ^ k) \<le> c * 2 ^ k" by (rule rne_le)
  then have "(of_int (rne (x * 2 ^ k)) :: rat) \<le> of_int (c * 2 ^ k)" by (simp only: of_int_le_iff)
  then have "of_int (rne (x * 2 ^ k)) / 2 ^ k \<le> (of_int c :: rat)" by (simp add: field_simps)
  with pos u show ?thesis by (simp add: float_round_def)
qed

lemma float_round_rel:
  assumes pos: "0 < x"
  shows "float_round x \<le> x * (1 + 1 / 2 ^ 53)"
proof -
  have u0: "0 < ulp x" by (rule ulp_pos)
  have "ulp x = 2 powi (binade x) * 2 powi (- 52)"
    using pos by (simp add: ulp_def power_int_diff power_int_minus field_simps)
  also have "\<dots> \<le> x * 2 powi (- 52)" using binade_le [OF pos] by simp
  finally have u: "ulp x \<le> x / 2 ^ 52" by (simp add: power_int_minus field_simps)
  have "of_int (rne (x / ulp x)) \<le> x / ulp x + 1 / 2" by (rule rne_upper)
  then have "of_int (rne (x / ulp x)) * ulp x \<le> (x / ulp x + 1 / 2) * ulp x"
    using u0 by (simp only: mult_le_cancel_right_pos)
  also have "\<dots> = x + ulp x / 2" using u0 by (simp add: field_simps)
  also have "\<dots> \<le> x + (x / 2 ^ 52) / 2" using u by simp
  also have "\<dots> = x * (1 + 1 / 2 ^ 53)" by (simp add: field_simps)
  finally show ?thesis using pos by (simp add: float_round_def)
qed

lemma rne_lower: "x - 1 / 2 \<le> of_int (rne x)"
proof -
  define d where "d = x - of_int \<lfloor>x\<rfloor>"
  have d1: "d < 1" unfolding d_def by linarith
  have x: "x = of_int \<lfloor>x\<rfloor> + d" by (simp add: d_def)
  have r: "rne x = (if d < 1 / 2 then \<lfloor>x\<rfloor> else if 1 / 2 < d then \<lfloor>x\<rfloor> + 1
                    else if even \<lfloor>x\<rfloor> then \<lfloor>x\<rfloor> else \<lfloor>x\<rfloor> + 1)"
    by (simp add: rne_def Let_def d_def)
  consider "d < 1 / 2" | "d = 1 / 2" | "1 / 2 < d" by linarith
  then show ?thesis
  proof cases
    case 1
    with r have "rne x = \<lfloor>x\<rfloor>" by simp
    with 1 x show ?thesis by linarith
  next
    case 2
    from r have "\<lfloor>x\<rfloor> \<le> rne x" by simp
    then have "(of_int \<lfloor>x\<rfloor> :: rat) \<le> of_int (rne x)" by (simp only: of_int_le_iff)
    with 2 x show ?thesis by linarith
  next
    case 3
    with r have "rne x = \<lfloor>x\<rfloor> + 1" by simp
    then have "(of_int (rne x) :: rat) = of_int \<lfloor>x\<rfloor> + 1" by simp
    with d1 x show ?thesis by linarith
  qed
qed

lemma float_round_rel_lower:
  assumes pos: "0 < x"
  shows "x * (1 - 1 / 2 ^ 53) \<le> float_round x"
proof -
  have u0: "0 < ulp x" by (rule ulp_pos)
  have "ulp x = 2 powi (binade x) * 2 powi (- 52)"
    using pos by (simp add: ulp_def power_int_diff power_int_minus field_simps)
  also have "\<dots> \<le> x * 2 powi (- 52)" using binade_le [OF pos] by simp
  finally have u: "ulp x \<le> x / 2 ^ 52" by (simp add: power_int_minus field_simps)
  have "x * (1 - 1 / 2 ^ 53) = x - (x / 2 ^ 52) / 2" by (simp add: field_simps)
  also have "\<dots> \<le> x - ulp x / 2" using u by simp
  also have "\<dots> = (x / ulp x - 1 / 2) * ulp x" using u0 by (simp add: field_simps)
  also have "\<dots> \<le> of_int (rne (x / ulp x)) * ulp x"
    using u0 rne_lower [of "x / ulp x"] by (simp only: mult_le_cancel_right_pos)
  finally show ?thesis using pos by (simp add: float_round_def)
qed

lemma float_round_zero: "float_round 0 = 0"
  by (simp add: float_round_def)

lemma quotient_range:
  assumes "0 < n" and "k \<le> n"
  shows "0 \<le> float_round (of_nat k / of_nat n)" and "float_round (of_nat k / of_nat n) \<le> 1"
proof -
  have q0: "(0::rat) \<le> of_nat k / of_nat n" by simp
  then show "0 \<le> float_round (of_nat k / of_nat n)" by (rule float_round_nonneg)
  from assms have q1: "(of_nat k / of_nat n :: rat) \<le> 1" by simp
  show "float_round (of_nat k / of_nat n) \<le> 1"
  proof (cases "k = 0")
    case True
    then show ?thesis by (simp add: float_round_zero)
  next
    case False
    with assms have "(0::rat) < of_nat k / of_nat n" by simp
    moreover from q1 have "(of_nat k / of_nat n :: rat) \<le> of_int 1" by simp
    moreover from q1 have "(of_nat k / of_nat n :: rat) < 2 ^ 53" by simp
    ultimately have "float_round (of_nat k / of_nat n) \<le> of_int 1" by (rule float_round_le_int)
    then show ?thesis by simp
  qed
qed

lemma percent_range:
  assumes "0 < n" and "k \<le> n"
  shows "0 \<le> percent k n \<and> percent k n \<le> 100"
proof -
  define q where "q = float_round (of_nat k / of_nat n)"
  from quotient_range [OF assms] have q: "0 \<le> q" "q \<le> 1" by (simp_all add: q_def)
  then have "0 \<le> q * 100" by simp
  then have lo: "0 \<le> float_round (q * 100)" by (rule float_round_nonneg)
  have hi: "float_round (q * 100) \<le> 100"
  proof (cases "q = 0")
    case True
    then show ?thesis by (simp add: float_round_zero)
  next
    case False
    with q have "0 < q * 100" by simp
    moreover from q have "q * 100 \<le> of_int 100" by simp
    moreover from q have "q * 100 < 2 ^ 53" by simp
    ultimately have "float_round (q * 100) \<le> of_int 100" by (rule float_round_le_int)
    then show ?thesis by simp
  qed
  from lo hi show ?thesis by (simp add: percent_def q_def)
qed

lemma percent_upper:
  "percent k n \<le> of_nat k / of_nat n * 100 * (1 + 1 / 2 ^ 53)\<^sup>2"
proof (cases "0 < of_nat k / (of_nat n :: rat)")
  case False
  moreover have "(0::rat) \<le> of_nat k / of_nat n" by simp
  ultimately have z: "of_nat k / (of_nat n :: rat) = 0" by linarith
  show ?thesis unfolding percent_def z by (simp add: float_round_zero)
next
  case True
  define x :: rat where "x = of_nat k / of_nat n"
  define q where "q = float_round x"
  from True have x: "0 < x" by (simp add: x_def)
  from float_round_rel [OF x] have qx: "q \<le> x * (1 + 1 / 2 ^ 53)" by (simp add: q_def)
  from x have q0: "0 \<le> q" unfolding q_def by (intro float_round_nonneg) simp
  have "float_round (q * 100) \<le> q * 100 * (1 + 1 / 2 ^ 53)"
  proof (cases "q = 0")
    case True
    then show ?thesis by (simp add: float_round_zero)
  next
    case False
    with q0 have "0 < q * 100" by simp
    then show ?thesis by (rule float_round_rel)
  qed
  also from qx have "\<dots> \<le> (x * (1 + 1 / 2 ^ 53)) * 100 * (1 + 1 / 2 ^ 53)" by simp
  also have "\<dots> = x * 100 * (1 + 1 / 2 ^ 53)\<^sup>2" by (simp add: power2_eq_square)
  finally show ?thesis by (simp add: percent_def q_def x_def)
qed

lemma percent_lower:
  "of_nat k / of_nat n * 100 * (1 - 1 / 2 ^ 53)\<^sup>2 \<le> percent k n"
proof (cases "0 < of_nat k / (of_nat n :: rat)")
  case False
  moreover have "(0::rat) \<le> of_nat k / of_nat n" by simp
  ultimately have z: "of_nat k / (of_nat n :: rat) = 0" by linarith
  show ?thesis unfolding percent_def z by (simp add: float_round_zero)
next
  case True
  define x :: rat where "x = of_nat k / of_nat n"
  define q where "q = float_round x"
  from True have x: "0 < x" by (simp add: x_def)
  from float_round_rel_lower [OF x] have qx: "x * (1 - 1 / 2 ^ 53) \<le> q" by (simp add: q_def)
  from x have "0 < x * (1 - 1 / 2 ^ 53)" by simp
  with qx have q0: "0 < q" by simp
  have "x * 100 * (1 - 1 / 2 ^ 53)\<^sup>2 = (x * (1 - 1 / 2 ^ 53)) * 100 * (1 - 1 / 2 ^ 53)"
    by (simp add: power2_eq_square)
  also from qx have "\<dots> \<le> q * 100 * (1 - 1 / 2 ^ 53)" by simp
  also from q0 have "\<dots> \<le> float_round (q * 100)" by (intro float_round_rel_lower) simp
  finally show ?thesis by (simp add: percent_def q_def x_def)
qed

section \<open>What the loop counts\<close>

lemma count_pixel_fields:
  "yellow_count (count_pixel c r g b) =
     yellow_count c + (if classify_pixel r g b = Yellow then 1 else 0)"
  "grey_count (count_pixel c r g b) =
     grey_count c + (if classify_pixel r g b = Grey then 1 else 0)"
  "black_count (count_pixel c r g b) =
     black_count c + (if classify_pixel r g b = Black then 1 else 0)"
  "total_samples (count_pixel c r g b) = total_samples c + 1"
  by (cases "classify_pixel r g b"; simp add: count_pixel_def Let_def)+

lemma foldl_counts:
  "foldl (\<lambda>c i. count_pixel c (uint (d ! nat i)) (uint (d ! nat (i + 1)))
                        (uint (d ! nat (i + 2)))) c idx =
     \<lparr>yellow_count = yellow_count c + length (filter (\<lambda>i. sampled_category d i = Yellow) idx),
      grey_count = grey_count c + length (filter (\<lambda>i. sampled_category d i = Grey) idx),
      black_count = black_count c + length (filter (\<lambda>i. sampled_category d i = Black) idx),
      total_samples = total_samples c + length idx\<rparr>"
proof (induction idx arbitrary: c)
  case Nil
  show ?case by simp
next
  case (Cons i idx)
  define c' where
    "c' = count_pixel c (uint (d ! nat i)) (uint (d ! nat (i + 1))) (uint (d ! nat (i + 2)))"
  have "foldl (\<lambda>c i. count_pixel c (uint (d ! nat i)) (uint (d ! nat (i + 1)))
                        (uint (d ! nat (i + 2)))) c (i # idx) =
        foldl (\<lambda>c i. count_pixel c (uint (d ! nat i)) (uint (d ! nat (i + 1)))
                        (uint (d ! nat (i + 2)))) c' idx"
    by (simp add: c'_def)
  also note Cons.IH [of c']
  finally show ?case
    by (simp add: c'_def count_pixel_fields sampled_category_def)
qed

lemma sample_loop_tally:
  "sample_loop d (sample_indices d) no_counts =
     Inr \<lparr>yellow_count = tally d Yellow, grey_count = tally d Grey,
          black_count = tally d Black, total_samples = length (sample_indices d)\<rparr>"
proof -
  have "\<forall>i \<in> set (sample_indices d). 0 \<le> i \<and> i + 2 < int (length d)"
    using sample_indices_in_range [of _ d] by blast
  from sample_loop_safe [OF this, of no_counts] show ?thesis
    by (simp add: foldl_counts tally_def no_counts_def)
qed

lemma tally_sum:
  "tally d Yellow + tally d Grey + tally d Black \<le> length (sample_indices d)"
proof -
  have "length (filter (\<lambda>i. f i = Yellow) xs) + length (filter (\<lambda>i. f i = Grey) xs)
        + length (filter (\<lambda>i. f i = Black) xs) \<le> length xs" for f :: "int \<Rightarrow> category" and xs
    by (induction xs) auto
  then show ?thesis by (simp add: tally_def)
qed

lemma tally_le: "tally d cat \<le> length (sample_indices d)"
  by (simp add: tally_def)

lemma count_colors_tally:
  "count_colors w h d =
     (if 0 < length (sample_indices d)
      then Inr (Some (percent (tally d Yellow) (length (sample_indices d)),
                      percent (tally d Grey) (length (sample_indices d)),
                      percent (tally d Black) (length (sample_indices d))))
      else Inr None)"
  by (simp add: count_colors_def sample_loop_tally)

lemma sample_indices_empty: "sample_indices d = [] \<longleftrightarrow> length d < 3"
proof -
  have "0 < step_of d" by (rule step_of_pos)
  then show ?thesis
    by (auto simp: sample_indices_def py_range.simps [of 0 "int (length d) - 2" "step_of d"])
qed

section \<open>Images of one colour\<close>

lemma float_round_one: "float_round 1 = 1"
  by code_simp

lemma float_round_hundred: "float_round 100 = 100"
  by code_simp

lemma percent_all: "0 < n \<Longrightarrow> percent n n = 100"
  by (simp add: percent_def float_round_one float_round_hundred)

lemma percent_none: "percent 0 n = 0"
  by (simp add: percent_def float_round_zero)

lemma uniform_nth:
  "k < n \<Longrightarrow>
   concat (replicate n [r, g, b]) ! (3 * k) = r
   \<and> concat (replicate n [r, g, b]) ! (3 * k + 1) = g
   \<and> concat (replicate n [r, g, b]) ! (3 * k + 2) = b"
proof (induction n arbitrary: k)
  case 0
  then show ?case by simp
next
  case (Suc n)
  show ?case
  proof (cases k)
    case 0
    then show ?thesis by simp
  next
    case (Suc j)
    with Suc.prems have "j < n" by simp
    from Suc.IH [OF this] Suc show ?thesis by simp
  qed
qed

lemma uniform_category:
  assumes "i \<in> set (sample_indices (concat (replicate n [r, g, b])))"
  shows "sampled_category (concat (replicate n [r, g, b])) i = classify_pixel (uint r) (uint g) (uint b)"
proof -
  from sample_indices_in_range [OF assms]
  have i: "0 \<le> i" "i + 2 < int (3 * n)" "3 dvd i"
    by (simp_all add: length_concat sum_list_replicate)
  from i(3) obtain j where j: "i = 3 * j" by (auto simp: dvd_def)
  with i(1) have j0: "0 \<le> j" by simp
  define k where "k = nat j"
  from j j0 have n0: "nat i = 3 * k" "nat (i + 1) = 3 * k + 1" "nat (i + 2) = 3 * k + 2"
    by (simp_all add: k_def nat_mult_distrib nat_add_distrib)
  from i(2) j j0 have "k < n" by (simp add: k_def)
  from uniform_nth [OF this, of r g b] show ?thesis
    by (simp add: sampled_category_def n0)
qed

lemma uniform_tally:
  "tally (concat (replicate n [r, g, b])) cat =
     (if classify_pixel (uint r) (uint g) (uint b) = cat
      then length (sample_indices (concat (replicate n [r, g, b]))) else 0)"
proof -
  let ?d = "concat (replicate n [r, g, b])"
  have "filter (\<lambda>i. sampled_category ?d i = cat) (sample_indices ?d) =
        filter (\<lambda>i. classify_pixel (uint r) (uint g) (uint b) = cat) (sample_indices ?d)"
    by (rule filter_cong) (simp_all add: uniform_category)
  then show ?thesis by (simp add: tally_def)
qed

lemma uniform_sampled: "0 < n \<Longrightarrow> 0 < length (sample_indices (concat (replicate n [r, g, b])))"
  using sample_indices_empty [of "concat (replicate n [r, g, b])"]
  by (cases "sample_indices (concat (replicate n [r, g, b]))") (simp_all add: length_concat sum_list_replicate)

lemma uniform_image:
  assumes "0 < n"
  shows "count_colors w h (concat (replicate n [r, g, b])) =
     Inr (Some (case classify_pixel (uint r) (uint g) (uint b) of
                  Yellow \<Rightarrow> (100, 0, 0) | Grey \<Rightarrow> (0, 100, 0)
                | Black \<Rightarrow> (0, 0, 100) | Unclassified \<Rightarrow> (0, 0, 0)))"
  using uniform_sampled [OF assms, of r g b]
  by (cases "classify_pixel (uint r) (uint g) (uint b)")
     (simp_all add: count_colors_tally uniform_tally percent_all percent_none)

lemma standard_colours:
  "classify_pixel 255 255 150 = Yellow" "classify_pixel 189 189 189 = Grey"
  "classify_pixel 0 0 0 = Black" "classify_pixel 100 50 200 = Unclassified"
  by (simp_all add: classify_pixel_def is_yellow_def)

lemma classify_pixel_rule:
  "classify_pixel r g b =
     (if (r > 200 \<and> g > 200 \<and> b < 220 \<and> (b < r - 20 \<or> b < g - 20))
         \<or> (r > 180 \<and> g > 160 \<and> b < 160 \<and> r > b + 30) then Yellow
      else if (\<bar>r - g\<bar> < 20 \<and> \<bar>g - b\<bar> < 20 \<and> 165 < r \<and> r < 215)
         \<or> (r > 230 \<and> g > 230 \<and> b > 230) then Grey
      else if r < 60 \<and> g < 60 \<and> b < 60 then Black
      else Unclassified)"
  by (auto simp: classify_pixel_def is_yellow_def Let_def)

section \<open>The result of the analysis\<close>

lemma count_colors_no_error: "count_colors w h d \<noteq> Inl e"
  by (simp add: count_colors_tally)

lemma count_colors_dims: "count_colors w h d = count_colors w' h' d"
  by (simp add: count_colors_def)

lemma percent_sum:
  assumes "0 < n" and "a + b + c \<le> n"
  shows "percent a n + percent b n + percent c n \<le> 100 * (1 + 1 / 2 ^ 53)\<^sup>2"
proof -
  define e :: rat where "e = (1 + 1 / 2 ^ 53)\<^sup>2"
  have e0: "0 \<le> e" by (simp add: e_def)
  have "percent a n + percent b n + percent c n
        \<le> of_nat a / of_nat n * 100 * e + of_nat b / of_nat n * 100 * e
          + of_nat c / of_nat n * 100 * e"
    using percent_upper [of a n] percent_upper [of b n] percent_upper [of c n]
    unfolding e_def by linarith
  also have "\<dots> = (of_nat (a + b + c) / of_nat n) * (100 * e)"
    by (simp add: add_divide_distrib algebra_simps)
  also have "\<dots> \<le> 1 * (100 * e)"
  proof (rule mult_right_mono)
    from assms have "(of_nat (a + b + c) :: rat) \<le> of_nat n" by (simp only: of_nat_le_iff)
    with assms(1) show "(of_nat (a + b + c) / of_nat n :: rat) \<le> 1" by simp
    from e0 show "0 \<le> 100 * e" by simp
  qed
  finally show ?thesis by (simp add: e_def)
qed

lemma analyze_screenshot_cases:
  "analyze_screenshot file = (0, 0, 0)
   \<or> (\<exists>d. 0 < length (sample_indices d)
          \<and> analyze_screenshot file =
              (percent (tally d Yellow) (length (sample_indices d)),
               percent (tally d Grey) (length (sample_indices d)),
               percent (tally d Black) (length (sample_indices d))))"
proof (cases "file")
  case None
  then show ?thesis by (simp add: analyze_screenshot_def analyze_try_def)
next
  case (Some f)
  show ?thesis
  proof (cases "parse_dims (dims_line f)")
    case (Inl e)
    with Some show ?thesis by (simp add: analyze_screenshot_def analyze_try_def)
  next
    case (Inr wh)
    obtain w h where wh: "wh = (w, h)" by (cases wh)
    show ?thesis
    proof (cases "0 < length (sample_indices (pixels_of f))")
      case True
      with Some Inr wh have "analyze_screenshot file =
              (percent (tally (pixels_of f) Yellow) (length (sample_indices (pixels_of f))),
               percent (tally (pixels_of f) Grey) (length (sample_indices (pixels_of f))),
               percent (tally (pixels_of f) Black) (length (sample_indices (pixels_of f))))"
        by (simp add: analyze_screenshot_def analyze_try_def count_colors_tally)
      with True show ?thesis by blast
    next
      case False
      with Some Inr wh show ?thesis
        by (simp add: analyze_screenshot_def analyze_try_def count_colors_tally)
    qed
  qed
qed

lemma analyze_screenshot_range:
  "case analyze_screenshot file of (y, g, b) \<Rightarrow>
     0 \<le> y \<and> y \<le> 100 \<and> 0 \<le> g \<and> g \<le> 100 \<and> 0 \<le> b \<and> b \<le> 100
     \<and> y + g + b \<le> 100 * (1 + 1 / 2 ^ 53)\<^sup>2"
proof -
  from analyze_screenshot_cases [of "file"] show ?thesis
  proof
    assume "analyze_screenshot file = (0, 0, 0)"
    then show ?thesis by simp
  next
    assume "\<exists>d. 0 < length (sample_indices d)
          \<and> analyze_screenshot file =
              (percent (tally d Yellow) (length (sample_indices d)),
               percent (tally d Grey) (length (sample_indices d)),
               percent (tally d Black) (length (sample_indices d)))"
    then obtain d where n: "0 < length (sample_indices d)"
      and a: "analyze_screenshot file =
              (percent (tally d Yellow) (length (sample_indices d)),
               percent (tally d Grey) (length (sample_indices d)),
               percent (tally d Black) (length (sample_indices d)))" by blast
    note r = percent_range [OF n tally_le]
    from a r [of Yellow] r [of Grey] r [of Black] percent_sum [OF n tally_sum]
    show ?thesis by simp
  qed
qed


lemma error_frame:
  "analyze_try file = Inl e \<Longrightarrow> frame_of (FilePresent file) = Percentages 0 0 0"
  by (simp add: analyze_screenshot_def)

lemma map_const: "(\<forall>x \<in> set xs. f x = c) \<Longrightarrow> map f xs = replicate (length xs) c"
  by (induction xs) simp_all

section \<open>Properties of the analysis and of its caller\<close>

text \<open>
  Claim C6. The category of a pixel is the first that matches, in the order yellow or
  tan, grey or white, black, unclassified, with the conditions as the claim writes
  them; the loop counts, for each category, the sampled indices whose pixel falls into
  it. So an image of at least one pixel, all of colour (255,255,150), gives 100 percent
  yellow; all (189,189,189), 100 percent grey; all (0,0,0), 100 percent black; and all
  (100,50,200), three times 0. The values are exact: the rounding leaves 0 and 100
  alone.
\<close>

theorem first_match_classification:
  "classify_pixel r g b =
     (if (r > 200 \<and> g > 200 \<and> b < 220 \<and> (b < r - 20 \<or> b < g - 20))
         \<or> (r > 180 \<and> g > 160 \<and> b < 160 \<and> r > b + 30) then Yellow
      else if (\<bar>r - g\<bar> < 20 \<and> \<bar>g - b\<bar> < 20 \<and> 165 < r \<and> r < 215)
         \<or> (r > 230 \<and> g > 230 \<and> b > 230) then Grey
      else if r < 60 \<and> g < 60 \<and> b < 60 then Black
      else Unclassified)
   \<and> sample_loop d (sample_indices d) no_counts =
       Inr \<lparr>yellow_count = tally d Yellow, grey_count = tally d Grey,
            black_count = tally d Black, total_samples = length (sample_indices d)\<rparr>
   \<and> (0 < n \<longrightarrow>
         count_colors w h (concat (replicate n [255, 255, 150])) = Inr (Some (100, 0, 0))
       \<and> count_colors w h (concat (replicate n [189, 189, 189])) = Inr (Some (0, 100, 0))
       \<and> count_colors w h (concat (replicate n [0, 0, 0])) = Inr (Some (0, 0, 100))
       \<and> count_colors w h (concat (replicate n [100, 50, 200])) = Inr (Some (0, 0, 0)))"
proof (intro conjI impI)
  show "classify_pixel r g b =
     (if (r > 200 \<and> g > 200 \<and> b < 220 \<and> (b < r - 20 \<or> b < g - 20))
         \<or> (r > 180 \<and> g > 160 \<and> b < 160 \<and> r > b + 30) then Yellow
      else if (\<bar>r - g\<bar> < 20 \<and> \<bar>g - b\<bar> < 20 \<and> 165 < r \<and> r < 215)
         \<or> (r > 230 \<and> g > 230 \<and> b > 230) then Grey
      else if r < 60 \<and> g < 60 \<and> b < 60 then Black
      else Unclassified)"
    by (rule classify_pixel_rule)
  show "sample_loop d (sample_indices d) no_counts =
       Inr \<lparr>yellow_count = tally d Yellow, grey_count = tally d Grey,
            black_count = tally d Black, total_samples = length (sample_indices d)\<rparr>"
    by (rule sample_loop_tally)
next
  assume n: "0 < n"
  show "count_colors w h (concat (replicate n [255, 255, 150])) = Inr (Some (100, 0, 0))"
    by (simp add: uniform_image [OF n] standard_colours)
  show "count_colors w h (concat (replicate n [189, 189, 189])) = Inr (Some (0, 100, 0))"
    by (simp add: uniform_image [OF n] standard_colours)
  show "count_colors w h (concat (replicate n [0, 0, 0])) = Inr (Some (0, 0, 100))"
    by (simp add: uniform_image [OF n] standard_colours)
  show "count_colors w h (concat (replicate n [100, 50, 200])) = Inr (Some (0, 0, 0))"
    by (simp add: uniform_image [OF n] standard_colours)
qed

theorem first_match_classification_witness:
  "(0::nat) < 4
   \<and> count_colors 2 2 (concat (replicate 4 [255, 255, 150])) = Inr (Some (100, 0, 0))
   \<and> count_colors 2 2 (concat (replicate 4 [189, 189, 189])) = Inr (Some (0, 100, 0))
   \<and> count_colors 2 2 (concat (replicate 4 [0, 0, 0])) = Inr (Some (0, 0, 100))
   \<and> count_colors 2 2 (concat (replicate 4 [100, 50, 200])) = Inr (Some (0, 0, 0))
   \<and> sample_indices (concat (replicate 4 [255, 255, 150])) = [0, 9]"
proof -
  have h: "(0::nat) < 4" by simp
  have i: "sample_indices (concat (replicate 4 [255, 255, 150])) = [0, 9]" by code_simp
  from first_match_classification [of 0 0 0 "[]" 4 2 2, THEN conjunct2, THEN conjunct2, rule_format, OF h] h i
  show ?thesis by simp
qed

text \<open>
  Claim C7, as stated, against the code. The percentages are binary64 numbers, each
  rounded twice, and their sum can pass 100: a 33 by 1 image whose 11 sampled pixels
  are 2 yellow and 9 grey gives 18.181818181818183 and 81.81818181818183, whose sum
  is above 100 (and is 100.00000000000001 when Python adds them).
\<close>

theorem percentages_sum_above_100:
  "analyze_screenshot (Some (ppm [''P6'', ''33 1'', ''255'']
      (concat (replicate 6 [255, 255, 150]) @ concat (replicate 27 [189, 189, 189])))) =
     (5117726849284655 / 281474976710656, 5757442705445237 / 70368744177664, 0)
   \<and> (100 :: rat) < 5117726849284655 / 281474976710656 + 5757442705445237 / 70368744177664 + 0"
  by code_simp

text \<open>
  Claim C7, amended. For every file, readable or not, well formed or not, the three
  numbers \<^verbatim>\<open>analyze_screenshot\<close> returns lie between 0 and 100 each, and their sum
  is at most 100 times the square of 1 + 1 / 2 ^ 53. When at least one pixel is sampled each
  number is the rounded \<^verbatim>\<open>(count / total_samples) * 100\<close> of its category, between
  the squares of 1 - 1 / 2 ^ 53 and 1 + 1 / 2 ^ 53 times the exact quotient times 100, and the
  three counts together do not exceed the number of samples. When no pixel is sampled
  (fewer than 3 bytes of pixel data) nothing fails and the result is (0, 0, 0).
\<close>

theorem percentages_within_rounding:
  "(case analyze_screenshot file of (y, g, b) \<Rightarrow>
      0 \<le> y \<and> y \<le> 100 \<and> 0 \<le> g \<and> g \<le> 100 \<and> 0 \<le> b \<and> b \<le> 100
      \<and> y + g + b \<le> 100 * (1 + 1 / 2 ^ 53)\<^sup>2)
   \<and> count_colors w h d =
       (if 0 < length (sample_indices d)
        then Inr (Some (percent (tally d Yellow) (length (sample_indices d)),
                        percent (tally d Grey) (length (sample_indices d)),
                        percent (tally d Black) (length (sample_indices d))))
        else Inr None)
   \<and> tally d Yellow + tally d Grey + tally d Black \<le> length (sample_indices d)
   \<and> of_nat k / of_nat n * 100 * (1 - 1 / 2 ^ 53)\<^sup>2 \<le> percent k n
   \<and> percent k n \<le> of_nat k / of_nat n * 100 * (1 + 1 / 2 ^ 53)\<^sup>2
   \<and> (length d < 3 \<longrightarrow> sample_indices d = [] \<and> count_colors w h d = Inr None)
   \<and> (analyze_try file = Inr None \<longrightarrow> analyze_screenshot file = (0, 0, 0))"
proof (intro conjI impI)
  show "case analyze_screenshot file of (y, g, b) \<Rightarrow>
      0 \<le> y \<and> y \<le> 100 \<and> 0 \<le> g \<and> g \<le> 100 \<and> 0 \<le> b \<and> b \<le> 100
      \<and> y + g + b \<le> 100 * (1 + 1 / 2 ^ 53)\<^sup>2"
    by (rule analyze_screenshot_range)
  show "count_colors w h d =
       (if 0 < length (sample_indices d)
        then Inr (Some (percent (tally d Yellow) (length (sample_indices d)),
                        percent (tally d Grey) (length (sample_indices d)),
                        percent (tally d Black) (length (sample_indices d))))
        else Inr None)"
    by (rule count_colors_tally)
  show "tally d Yellow + tally d Grey + tally d Black \<le> length (sample_indices d)"
    by (rule tally_sum)
  show "of_nat k / of_nat n * 100 * (1 - 1 / 2 ^ 53)\<^sup>2 \<le> percent k n"
    by (rule percent_lower)
  show "percent k n \<le> of_nat k / of_nat n * 100 * (1 + 1 / 2 ^ 53)\<^sup>2"
    by (rule percent_upper)
next
  assume "length d < 3"
  then show "sample_indices d = []" by (simp add: sample_indices_empty)
  then show "count_colors w h d = Inr None" by (simp add: count_colors_tally)
next
  assume "analyze_try file = Inr None"
  then show "analyze_screenshot file = (0, 0, 0)" by (simp add: analyze_screenshot_def)
qed

theorem percentages_within_rounding_witness:
  "length [255, 255 :: 8 word] < 3
   \<and> sample_indices [255, 255] = []
   \<and> count_colors 1 1 [255, 255] = Inr None
   \<and> analyze_try (Some (ppm [''P6'', ''1 1'', ''255''] [255, 255])) = Inr None
   \<and> analyze_screenshot (Some (ppm [''P6'', ''1 1'', ''255''] [255, 255])) = (0, 0, 0)"
proof -
  have l: "length [255, 255 :: 8 word] < 3" by simp
  have t: "analyze_try (Some (ppm [''P6'', ''1 1'', ''255''] [255, 255])) = Inr None"
    by code_simp
  note th = percentages_within_rounding
    [of "Some (ppm [''P6'', ''1 1'', ''255''] [255, 255])" 1 1 "[255, 255]" 0 1]
  from th [THEN conjunct2, THEN conjunct2, THEN conjunct2, THEN conjunct2, THEN conjunct2,
      THEN conjunct1, rule_format, OF l]
    th [THEN conjunct2, THEN conjunct2, THEN conjunct2, THEN conjunct2, THEN conjunct2,
      THEN conjunct2, rule_format, OF t] l t
  show ?thesis by simp
qed

text \<open>
  Claim C10. What the sampling returns does not depend on the parsed width and height:
  with any dimension line that parses, the result is that of the bytes after the
  header alone. Every sampled index \<open>i\<close> has \<open>0 \<le> i\<close> and \<open>i + 2\<close> below the
  length of the pixel data, so the loop, whose reads are checked in the model, never
  raises IndexError, whether the data is shorter or longer than width times height
  times 3.
\<close>

theorem sampling_ignores_dimensions:
  "count_colors w h d = count_colors w' h' d
   \<and> (\<forall>i \<in> set (sample_indices d). 0 \<le> i \<and> i + 2 < int (length d))
   \<and> (\<exists>c. sample_loop d (sample_indices d) no_counts = Inr c)
   \<and> (\<forall>f. parse_dims (dims_line f) = Inr (w, h) \<longrightarrow>
         analyze_try (Some f) = count_colors 0 0 (pixels_of f))"
proof (intro conjI ballI allI impI)
  show "count_colors w h d = count_colors w' h' d" by (rule count_colors_dims)
  show "\<exists>c. sample_loop d (sample_indices d) no_counts = Inr c" by (rule sample_loop_total)
next
  fix i assume "i \<in> set (sample_indices d)"
  from sample_indices_in_range [OF this] show "0 \<le> i" and "i + 2 < int (length d)" by simp_all
next
  fix f assume "parse_dims (dims_line f) = Inr (w, h)"
  then show "analyze_try (Some f) = count_colors 0 0 (pixels_of f)"
    by (simp add: analyze_try_def count_colors_dims [of w h _ 0 0])
qed

theorem sampling_ignores_dimensions_witness:
  "parse_dims (dims_line (ppm [''P6'', ''2 2'', ''255''] [0, 0, 0, 255, 255, 150, 9])) = Inr (2, 2)
   \<and> pixels_of (ppm [''P6'', ''2 2'', ''255''] [0, 0, 0, 255, 255, 150, 9]) =
       [0, 0, 0, 255, 255, 150, 9]
   \<and> analyze_try (Some (ppm [''P6'', ''2 2'', ''255''] [0, 0, 0, 255, 255, 150, 9])) =
       count_colors 0 0 [0, 0, 0, 255, 255, 150, 9]
   \<and> count_colors 0 0 [0, 0, 0, 255, 255, 150, 9] = Inr (Some (0, 0, 100))
   \<and> sample_indices [0, 0, 0, 255, 255, 150, 9] = [0]
   \<and> (0 :: int) + 2 < int (length [0, 0, 0, 255, 255, 150, 9 :: 8 word])"
proof -
  let ?px = "[0, 0, 0, 255, 255, 150, 9] :: bytes"
  let ?f = "ppm [''P6'', ''2 2'', ''255''] ?px"
  have p: "parse_dims (dims_line ?f) = Inr (2, 2)" by code_simp
  have q: "pixels_of ?f = ?px" by code_simp
  have c: "count_colors 0 0 ?px = Inr (Some (0, 0, 100))" by code_simp
  have i: "sample_indices ?px = [0]" by code_simp
  note th = sampling_ignores_dimensions [of 2 2 ?px 0 0]
  from th [THEN conjunct2, THEN conjunct2, THEN conjunct2, rule_format, OF p]
    th [THEN conjunct2, THEN conjunct1] p q c i
  show ?thesis by simp
qed




text \<open>
  Claim C3, as stated, against the code. A run of 80 attempts whose screendump raises,
  or whose screenshot file is missing, issues all 80 screendumps and ends at the
  timeout of line 205; a run of 80 all-zero frames is closed by the safety net at
  \<^verbatim>\<open>check_count = 41\<close>. The two do not behave alike.
\<close>

theorem failed_captures_skip_the_safety_net:
  "monitor_vnc (live (map frame_of (replicate 80 RunRaised))) =
     map Screendump [0..<80] @ [ScheduleClose MonitorTimeout]
   \<and> monitor_vnc (live (map frame_of (replicate 80 FileAbsent))) =
     map Screendump [0..<80] @ [ScheduleClose MonitorTimeout]
   \<and> monitor_vnc (live (replicate 80 (Percentages 0 0 0))) =
     map Screendump [0..<42] @ [ScheduleClose NoYellowTimeout]"
  by code_simp

text \<open>
  Claim C3, amended. A screendump that raises and a missing screenshot file skip the
  transition logic of that attempt altogether (no yellow tracking, hysteresis, grey
  check or safety net): only \<^verbatim>\<open>check_count\<close> changes. A decode error inside
  \<^verbatim>\<open>analyze_screenshot\<close> reaches the transition logic as the frame (0, 0, 0) and
  is processed exactly as an all-zero frame is, so a run in which every attempt has
  a decode error behaves as the run of as many all-zero frames.
\<close>

theorem failed_attempts:
  "loop_body s (frame_of RunRaised) = Continue (s\<lparr>check_count := check_count s + 1\<rparr>)
   \<and> loop_body s (frame_of FileAbsent) = Continue (s\<lparr>check_count := check_count s + 1\<rparr>)
   \<and> ((\<exists>e. analyze_try file = Inl e) \<longrightarrow>
         loop_body s (frame_of (FilePresent file)) = loop_body s (Percentages 0 0 0))
   \<and> ((\<forall>f \<in> set files. \<exists>e. analyze_try f = Inl e) \<longrightarrow>
         monitor_vnc (live (map (\<lambda>f. frame_of (FilePresent f)) files)) =
         monitor_vnc (live (replicate (length files) (Percentages 0 0 0))))"
proof (intro conjI impI)
  show "loop_body s (frame_of RunRaised) = Continue (s\<lparr>check_count := check_count s + 1\<rparr>)"
    by simp
  show "loop_body s (frame_of FileAbsent) = Continue (s\<lparr>check_count := check_count s + 1\<rparr>)"
    by simp
next
  assume "\<exists>e. analyze_try file = Inl e"
  then obtain e where "analyze_try file = Inl e" ..
  from error_frame [OF this]
  show "loop_body s (frame_of (FilePresent file)) = loop_body s (Percentages 0 0 0)" by simp
next
  assume a: "\<forall>f \<in> set files. \<exists>e. analyze_try f = Inl e"
  have "\<forall>f \<in> set files. frame_of (FilePresent f) = Percentages 0 0 0"
    using a error_frame by blast
  then have "map (\<lambda>f. frame_of (FilePresent f)) files = replicate (length files) (Percentages 0 0 0)"
    by (rule map_const)
  then show "monitor_vnc (live (map (\<lambda>f. frame_of (FilePresent f)) files)) =
         monitor_vnc (live (replicate (length files) (Percentages 0 0 0)))" by simp
qed

theorem failed_attempts_witness:
  "analyze_try None = Inl OSError
   \<and> analyze_try (Some (ascii ''P6'')) = Inl IndexError
   \<and> loop_body \<lparr>check_count = 3, yellow_seen = True, post_yellow_frames = 1\<rparr>
        (frame_of (FilePresent None)) =
      Return YellowPassed \<lparr>check_count = 3, yellow_seen = True, post_yellow_frames = 2\<rparr>
   \<and> monitor_vnc (live (map (\<lambda>f. frame_of (FilePresent f)) [None, Some (ascii ''P6'')])) =
      [Screendump 0, Screendump 1]"
proof -
  have n: "analyze_try None = Inl OSError" by (simp add: analyze_try_def)
  have b: "analyze_try (Some (ascii ''P6'')) = Inl IndexError" by code_simp
  from n have n': "\<exists>e. analyze_try None = Inl e" by blast
  from n b have a: "\<forall>f \<in> set [None, Some (ascii ''P6'')]. \<exists>e. analyze_try f = Inl e" by simp
  note th = failed_attempts [of "\<lparr>check_count = 3, yellow_seen = True, post_yellow_frames = 1\<rparr>"
      None "[None, Some (ascii ''P6'')]"]
  from th [THEN conjunct2, THEN conjunct2, THEN conjunct1, rule_format, OF n']
    th [THEN conjunct2, THEN conjunct2, THEN conjunct2, THEN mp, OF a] n b
  show ?thesis
    by (simp add: monitor_vnc_def live_def initial_def after_yellow_def)
qed

end
